theory Spec2Isabelle
  imports Main "HOL-Library.Char_ord" "HOL-Library.List_Lexorder"
begin

section \<open>The library the ledger calls\<close>

text \<open>
  \<^verbatim>\<open>blockchain.py\<close> relies on four things it does not define: the SHA-256 digest of
  \<^verbatim>\<open>hashlib\<close>, the \<^verbatim>\<open>repr\<close> of a float (used by \<^verbatim>\<open>json.dumps\<close> for the timestamp), the
  blocking \<^verbatim>\<open>requests.get\<close>, and the order in which Python iterates a set. They are
  the fields of an environment that every operation receives; each theorem below holds
  for every environment. The type \<open>'f\<close> stands for Python's \<^verbatim>\<open>float\<close>.

  \<^verbatim>\<open>requests.get\<close> either raises or returns a response. The call is made without a
  timeout; a call that never returns is not part of the model.
\<close>

datatype error = IndexError | RequestException

record transaction =
  sender :: string
  recipient :: string
  amount :: int

text \<open>
  A block is the dict built in \<^verbatim>\<open>new_block\<close>. The key \<^verbatim>\<open>proof\<close> is the field
  \<open>proof_nonce\<close> here, as \<open>proof\<close> is reserved in Isabelle.
\<close>

record 'f block =
  index :: int
  timestamp :: 'f
  transactions :: "transaction list"
  proof_nonce :: int
  previous_hash :: string

text \<open>
  The answer of a peer to \<^verbatim>\<open>GET /chain\<close>: its status code and the two entries of its
  JSON body that \<^verbatim>\<open>resolve_conflict\<close> reads. The reported \<open>body_length\<close> is whatever
  the peer says; nothing ties it to the length of \<open>body_chain\<close>.
\<close>

record 'f response =
  status_code :: int
  body_length :: int
  body_chain :: "'f block list"

record 'f env =
  sha256_hexdigest :: "string \<Rightarrow> string"
  float_repr :: "'f \<Rightarrow> string"
  requests_get :: "string \<Rightarrow> error + 'f response"
  set_iter :: "string set \<Rightarrow> string list"

section \<open>\<^verbatim>\<open>json.dumps\<close>\<close>

text \<open>
  The values \<^verbatim>\<open>json.dumps\<close> meets when it serialises a block. A dict is the list of its
  items in insertion order.
\<close>

datatype 'f json =
    JInt int
  | JFloat 'f
  | JStr string
  | JList "'f json list"
  | JDict "(string \<times> 'f json) list"

definition digit :: "nat \<Rightarrow> char" where
  "digit n = ''0123456789abcdef'' ! n"

fun nat_repr :: "nat \<Rightarrow> string" where
  "nat_repr n = (if n < 10 then [digit n] else nat_repr (n div 10) @ [digit (n mod 10)])"

declare nat_repr.simps [simp del]

definition int_repr :: "int \<Rightarrow> string" where
  "int_repr i = (if i < 0 then CHR ''-'' # nat_repr (nat (- i)) else nat_repr (nat i))"

definition hex4 :: "nat \<Rightarrow> string" where
  "hex4 n = [digit (n div 4096 mod 16), digit (n div 256 mod 16),
             digit (n div 16 mod 16), digit (n mod 16)]"

text \<open>
  The escaping of \<^verbatim>\<open>ensure_ascii=True\<close>, for code points below 256: the quote and
  the backslash get a backslash, the five named control characters their letter, and
  every other character outside \<^verbatim>\<open>' '..'~'\<close> the form \<^verbatim>\<open>\u00xx\<close>.
\<close>

definition escape_char :: "char \<Rightarrow> string" where
  "escape_char c =
     (if c = CHR 0x22 then [CHR 0x5C, CHR 0x22]
      else if c = CHR 0x5C then [CHR 0x5C, CHR 0x5C]
      else if c = CHR 0x08 then [CHR 0x5C, CHR ''b'']
      else if c = CHR 0x0C then [CHR 0x5C, CHR ''f'']
      else if c = CHR 0x0A then [CHR 0x5C, CHR ''n'']
      else if c = CHR 0x0D then [CHR 0x5C, CHR ''r'']
      else if c = CHR 0x09 then [CHR 0x5C, CHR ''t'']
      else if (of_char c :: nat) < 32 \<or> 126 < (of_char c :: nat)
        then [CHR 0x5C, CHR ''u''] @ hex4 (of_char c)
      else [c])"

definition json_str :: "string \<Rightarrow> string" where
  "json_str s = [CHR 0x22] @ concat (map escape_char s) @ [CHR 0x22]"

fun join :: "string \<Rightarrow> string list \<Rightarrow> string" where
  "join sep [] = []"
| "join sep [x] = x"
| "join sep (x # y # ys) = x @ sep @ join sep (y # ys)"

text \<open>
  \<^verbatim>\<open>json.dumps(obj, sort_keys=sk)\<close> with the default separators. With \<open>sk\<close> the items of
  every dict, nested ones too, are written in the order of their keys.
\<close>

function dumps :: "('f \<Rightarrow> string) \<Rightarrow> bool \<Rightarrow> 'f json \<Rightarrow> string" where
  "dumps R sk (JInt i) = int_repr i"
| "dumps R sk (JFloat x) = R x"
| "dumps R sk (JStr s) = json_str s"
| "dumps R sk (JList vs) = ''['' @ join '', '' (map (dumps R sk) vs) @ '']''"
| "dumps R sk (JDict kvs) =
     ''{'' @ join '', ''
        (map (\<lambda>kv. json_str (fst kv) @ '': '' @ dumps R sk (snd kv))
             (if sk then sort_key fst kvs else kvs)) @ ''}''"
  by pat_completeness auto
termination
proof (relation "measure (\<lambda>(R, sk, v). size v)")
  show "wf (measure (\<lambda>(R :: 'f \<Rightarrow> string, sk :: bool, v :: 'f json). size v))"
    by simp
next
  fix R :: "'f \<Rightarrow> string" and sk :: bool and vs and x :: "'f json"
  assume "x \<in> set vs"
  then show "((R, sk, x), (R, sk, JList vs)) \<in> measure (\<lambda>(R, sk, v). size v)"
    by (induction vs) auto
next
  fix R :: "'f \<Rightarrow> string" and sk :: bool and kvs and x :: "string \<times> 'f json"
  assume "x \<in> set (if sk then sort_key fst kvs else kvs)"
  then have "x \<in> set kvs"
    by (simp split: if_splits)
  then have "size (snd x) < Suc (size_list (\<lambda>kv. Suc (size (snd kv))) kvs)"
    by (induction kvs) auto
  then show "((R, sk, snd x), (R, sk, JDict kvs)) \<in> measure (\<lambda>(R, sk, v). size v)"
    by (simp add: size_prod_simp)
qed

section \<open>The ledger\<close>

text \<open>The dicts that \<^verbatim>\<open>new_transaction\<close> and \<^verbatim>\<open>new_block\<close> build, keys in the order written there.\<close>

definition transaction_dict :: "transaction \<Rightarrow> 'f json" where
  "transaction_dict t =
     JDict [(''sender'', JStr (sender t)),
            (''recipient'', JStr (recipient t)),
            (''amount'', JInt (amount t))]"

definition block_dict :: "'f block \<Rightarrow> 'f json" where
  "block_dict b =
     JDict [(''index'', JInt (index b)),
            (''timestamp'', JFloat (timestamp b)),
            (''transactions'', JList (map transaction_dict (transactions b))),
            (''proof'', JInt (proof_nonce b)),
            (''previous_hash'', JStr (previous_hash b))]"

text \<open>
  \<^verbatim>\<open>Blockchain.hash\<close>. The output of \<^verbatim>\<open>json.dumps\<close> is ASCII, so \<^verbatim>\<open>encode()\<close> leaves
  it as it is.
\<close>

definition hash :: "'f env \<Rightarrow> 'f json \<Rightarrow> string" where
  "hash E block = sha256_hexdigest E (dumps (float_repr E) True block)"

text \<open>The class \<^verbatim>\<open>Blockchain\<close>.\<close>

record 'f blockchain =
  chain :: "'f block list"
  pending_transactions :: "transaction list"
  nodes :: "string set"

text \<open>\<^verbatim>\<open>self.chain[-1]\<close> raises on the empty list.\<close>

definition last_block :: "'f blockchain \<Rightarrow> error + 'f block" where
  "last_block s = (if chain s = [] then Inl IndexError else Inr (last (chain s)))"

text \<open>
  \<^verbatim>\<open>new_block\<close>; \<open>now\<close> is what \<^verbatim>\<open>time()\<close> returns. The dict is built before anything is
  assigned, so when \<^verbatim>\<open>self.chain[-1]\<close> raises the state is as before. Python's
  \<^verbatim>\<open>previous_hash or ...\<close> takes the right operand for \<^verbatim>\<open>None\<close> and for the empty string.
\<close>

definition new_block ::
  "'f env \<Rightarrow> 'f blockchain \<Rightarrow> int \<Rightarrow> string option \<Rightarrow> 'f \<Rightarrow> error + ('f blockchain \<times> 'f block)"
where
  "new_block E s proof_arg previous_hash_arg now =
     (case (case previous_hash_arg of
              None \<Rightarrow> map_sum id (\<lambda>b. hash E (block_dict b)) (last_block s)
            | Some h \<Rightarrow>
                if h = [] then map_sum id (\<lambda>b. hash E (block_dict b)) (last_block s)
                else Inr h) of
        Inl e \<Rightarrow> Inl e
      | Inr h \<Rightarrow>
          let block = \<lparr>index = int (length (chain s)) + 1,
                       timestamp = now,
                       transactions = pending_transactions s,
                       proof_nonce = proof_arg,
                       previous_hash = h\<rparr>
          in Inr (s\<lparr>pending_transactions := [], chain := chain s @ [block]\<rparr>, block))"

text \<open>\<^verbatim>\<open>__init__\<close>.\<close>

definition init :: "'f env \<Rightarrow> 'f \<Rightarrow> error + 'f blockchain" where
  "init E now =
     (case new_block E \<lparr>chain = [], pending_transactions = [], nodes = {}\<rparr> 100 (Some ''1'') now of
        Inl e \<Rightarrow> Inl e
      | Inr (s, b) \<Rightarrow> Inr (s\<lparr>nodes := {}\<rparr>))"

text \<open>
  \<^verbatim>\<open>new_transaction\<close> appends first and reads \<^verbatim>\<open>last_block\<close> afterwards, so the pool
  has grown even when the read raises: the state is returned in both cases.
\<close>

definition new_transaction ::
  "'f blockchain \<Rightarrow> string \<Rightarrow> string \<Rightarrow> int \<Rightarrow> 'f blockchain \<times> (error + int)"
where
  "new_transaction s sender_arg recipient_arg amount_arg =
     (let s' = s\<lparr>pending_transactions := pending_transactions s @
                  [\<lparr>sender = sender_arg, recipient = recipient_arg, amount = amount_arg\<rparr>]\<rparr>
      in (s', map_sum id (\<lambda>b. index b + 1) (last_block s')))"

section \<open>Proof of work\<close>

definition valid_proof :: "'f env \<Rightarrow> 'f block \<Rightarrow> bool" where
  "valid_proof E block = (take 4 (hash E (block_dict block)) = ''0000'')"

text \<open>
  \<^verbatim>\<open>proof_of_work\<close> changes the block it is given and returns nothing; here it returns
  the block as the loop leaves it. The loop has no bound, so the result is an option and
  \<open>None\<close> stands for a search that never ends.
\<close>

partial_function (option) proof_of_work :: "'f env \<Rightarrow> 'f block \<Rightarrow> 'f block option" where
  "proof_of_work E block =
     (if \<not> valid_proof E block
      then proof_of_work E (block\<lparr>proof_nonce := proof_nonce block + 1\<rparr>)
      else Some block)"

section \<open>Validation and consensus\<close>

text \<open>
  The loop of \<^verbatim>\<open>valid_chain\<close>, with its variables \<^verbatim>\<open>last_block\<close> (here \<open>prev\<close>) and
  \<^verbatim>\<open>current_index\<close>; \<open>blocks\<close> is the argument \<^verbatim>\<open>chain\<close>. The \<^verbatim>\<open>print\<close> calls are left out.
\<close>

function valid_chain_loop :: "'f env \<Rightarrow> 'f block list \<Rightarrow> 'f block \<Rightarrow> nat \<Rightarrow> bool" where
  "valid_chain_loop E blocks prev current_index =
     (if current_index < length blocks then
        let block = blocks ! current_index in
        if previous_hash block \<noteq> hash E (block_dict prev) then False
        else if \<not> valid_proof E block then False
        else valid_chain_loop E blocks block (current_index + 1)
      else True)"
  by pat_completeness auto
termination
  by (relation "measure (\<lambda>(E, blocks, prev, current_index). length blocks - current_index)")
     auto

declare valid_chain_loop.simps [simp del]

text \<open>\<^verbatim>\<open>valid_chain\<close>: \<^verbatim>\<open>chain[0]\<close> raises on the empty list, before the loop.\<close>

definition valid_chain :: "'f env \<Rightarrow> 'f block list \<Rightarrow> error + bool" where
  "valid_chain E blocks =
     (if blocks = [] then Inl IndexError else Inr (valid_chain_loop E blocks (blocks ! 0) 1))"

text \<open>
  The loop of \<^verbatim>\<open>resolve_conflict\<close> over the peers, with its two variables. An exception
  of \<^verbatim>\<open>requests.get\<close> or of \<^verbatim>\<open>valid_chain\<close> is not caught anywhere and ends the loop.
  \<^verbatim>\<open>and\<close> evaluates \<^verbatim>\<open>valid_chain\<close> only when the length is greater.
\<close>

fun scan ::
  "'f env \<Rightarrow> string list \<Rightarrow> int \<Rightarrow> 'f block list option \<Rightarrow> error + (int \<times> 'f block list option)"
where
  "scan E [] max_length new_chain = Inr (max_length, new_chain)"
| "scan E (node # neighbors) max_length new_chain =
     (case requests_get E (''http://'' @ node @ ''/chain'') of
        Inl e \<Rightarrow> Inl e
      | Inr response \<Rightarrow>
          if status_code response = 200 then
            if body_length response > max_length then
              (case valid_chain E (body_chain response) of
                 Inl e \<Rightarrow> Inl e
               | Inr ok \<Rightarrow>
                   if ok then scan E neighbors (body_length response) (Some (body_chain response))
                   else scan E neighbors max_length new_chain)
            else scan E neighbors max_length new_chain
          else scan E neighbors max_length new_chain)"

text \<open>
  \<^verbatim>\<open>resolve_conflict\<close>. \<^verbatim>\<open>if new_chain:\<close> is false for \<^verbatim>\<open>None\<close> and for the empty list.
  Nothing is assigned before the loop has ended, so an exception leaves the state as
  it was.
\<close>

definition resolve_conflict :: "'f env \<Rightarrow> 'f blockchain \<Rightarrow> error + ('f blockchain \<times> bool)" where
  "resolve_conflict E s =
     (case scan E (set_iter E (nodes s)) (int (length (chain s))) None of
        Inl e \<Rightarrow> Inl e
      | Inr (max_length, new_chain) \<Rightarrow>
          (case new_chain of
             None \<Rightarrow> Inr (s, False)
           | Some candidate_chain \<Rightarrow>
               if candidate_chain = [] then Inr (s, False)
               else Inr (s\<lparr>chain := candidate_chain\<rparr>, True)))"

section \<open>Notions of the specification\<close>

text \<open>
  The block after at most \<open>k\<close> passes through the loop of \<^verbatim>\<open>proof_of_work\<close>: the same
  test and the same assignment, with a bound on the number of passes.
\<close>

fun proof_of_work_steps :: "'f env \<Rightarrow> nat \<Rightarrow> 'f block \<Rightarrow> 'f block" where
  "proof_of_work_steps E 0 block = block"
| "proof_of_work_steps E (Suc k) block =
     (if \<not> valid_proof E block
      then proof_of_work_steps E k (block\<lparr>proof_nonce := proof_nonce block + 1\<rparr>)
      else block)"

text \<open>The number of zero characters a digest begins with.\<close>

definition leading_zeros :: "string \<Rightarrow> nat" where
  "leading_zeros h = length (takeWhile (\<lambda>c. c = CHR ''0'') h)"

text \<open>
  The two conditions under which the validator rejects the block at position \<open>i\<close>:
  its \<open>previous_hash\<close> is not the hash of the block before it, or its proof is not valid.
\<close>

definition block_fails :: "'f env \<Rightarrow> 'f block list \<Rightarrow> nat \<Rightarrow> bool" where
  "block_fails E blocks i =
     (previous_hash (blocks ! i) \<noteq> hash E (block_dict (blocks ! (i - 1)))
      \<or> \<not> valid_proof E (blocks ! i))"

text \<open>
  Two values are logically identical when they are equal up to the order of the items of
  their dicts, at every depth. A dict has each key once.
\<close>

fun same_json :: "'f json \<Rightarrow> 'f json \<Rightarrow> bool" where
  "same_json (JInt i) (JInt j) = (i = j)"
| "same_json (JFloat x) (JFloat y) = (x = y)"
| "same_json (JStr s) (JStr t) = (s = t)"
| "same_json (JList vs) (JList ws) = list_all2 same_json vs ws"
| "same_json (JDict kvs) (JDict kws) =
     (distinct (map fst kvs) \<and> distinct (map fst kws) \<and> set (map fst kvs) = set (map fst kws)
      \<and> (\<forall>kv \<in> set kvs. \<forall>kw \<in> set kws. fst kv = fst kw \<longrightarrow> same_json (snd kv) (snd kw)))"
| "same_json _ _ = False"

text \<open>The form of a digest: every character is a digit or a letter from a to f.\<close>

definition lowercase_hex :: "string \<Rightarrow> bool" where
  "lowercase_hex h = list_all (\<lambda>c. c \<in> set ''0123456789abcdef'') h"

text \<open>What \<^verbatim>\<open>resolve_conflict\<close> gets from a peer.\<close>

definition fetch :: "'f env \<Rightarrow> string \<Rightarrow> error + 'f response" where
  "fetch E node = requests_get E (''http://'' @ node @ ''/chain'')"

text \<open>
  A peer is a candidate against a length when its answer has status 200, reports a
  greater length and carries a chain that the validator accepts.
\<close>

definition candidate :: "'f env \<Rightarrow> int \<Rightarrow> string \<Rightarrow> bool" where
  "candidate E local_length node =
     (case fetch E node of
        Inl e \<Rightarrow> False
      | Inr r \<Rightarrow> status_code r = 200 \<and> local_length < body_length r
                 \<and> valid_chain E (body_chain r) = Inr True)"

definition non_success :: "'f env \<Rightarrow> string \<Rightarrow> bool" where
  "non_success E node = (case fetch E node of Inl e \<Rightarrow> False | Inr r \<Rightarrow> status_code r \<noteq> 200)"

section \<open>A small network to run the definitions on\<close>

text \<open>
  A stand-in for the digest, so that a hash can be evaluated: five zeros in front when the
  text contains the digit 7. Floats are given by their \<^verbatim>\<open>repr\<close>.
\<close>

definition demo_digest :: "string \<Rightarrow> string" where
  "demo_digest s = (if CHR ''7'' \<in> set s then ''00000c0de'' else ''1badc0de'')"

definition g0 :: "string block" where
  "g0 = \<lparr>index = 1, timestamp = ''0.5'', transactions = [], proof_nonce = 100,
          previous_hash = ''1''\<rparr>"

definition g1 :: "string block" where
  "g1 = \<lparr>index = 2, timestamp = ''1.5'',
          transactions = [\<lparr>sender = ''0'', recipient = ''me'', amount = 1\<rparr>],
          proof_nonce = 7, previous_hash = ''1badc0de''\<rparr>"

definition g2 :: "string block" where
  "g2 = \<lparr>index = 3, timestamp = ''2.5'', transactions = [], proof_nonce = 7,
          previous_hash = ''00000c0de''\<rparr>"

definition demo_get :: "string \<Rightarrow> error + string response" where
  "demo_get url =
     (if url = ''http://peer1/chain''
        then Inr \<lparr>status_code = 200, body_length = 1, body_chain = [g0]\<rparr>
      else if url = ''http://peer2/chain''
        then Inr \<lparr>status_code = 200, body_length = 3, body_chain = [g0, g1, g2]\<rparr>
      else if url = ''http://busy/chain''
        then Inr \<lparr>status_code = 503, body_length = 0, body_chain = []\<rparr>
      else Inl RequestException)"

definition demo_env :: "string env" where
  "demo_env = \<lparr>sha256_hexdigest = demo_digest, float_repr = (\<lambda>x. x), requests_get = demo_get,
                set_iter = (\<lambda>N. filter (\<lambda>n. n \<in> N) [''down'', ''busy'', ''peer1'', ''peer2''])\<rparr>"

text \<open>The same network with the peers iterated in another order.\<close>

definition demo_env_late :: "string env" where
  "demo_env_late =
     demo_env\<lparr>set_iter := (\<lambda>N. filter (\<lambda>n. n \<in> N) [''peer1'', ''peer2'', ''down''])\<rparr>"

definition demo_ledger :: "string set \<Rightarrow> string blockchain" where
  "demo_ledger N =
     \<lparr>chain = [g0],
      pending_transactions = [\<lparr>sender = ''a'', recipient = ''b'', amount = 10\<rparr>],
      nodes = N\<rparr>"

section \<open>Construction and the flow of a transaction\<close>

text \<open>
  C5. A ledger that has just been constructed has a chain of exactly one block, with index
  1, previous hash \<open>''1''\<close> and proof 100, and an empty pool of pending transactions.
\<close>

theorem init_genesis:
  "\<exists>s. init E now = Inr s \<and> length (chain s) = 1 \<and> index (chain s ! 0) = 1
       \<and> previous_hash (chain s ! 0) = ''1'' \<and> proof_nonce (chain s ! 0) = 100
       \<and> pending_transactions s = []"
  by (simp add: init_def new_block_def Let_def)

text \<open>
  C8. On a new ledger, \<^verbatim>\<open>new_transaction(A, B, 10)\<close> and then \<^verbatim>\<open>new_block(p)\<close> give a block
  whose transactions are the one transaction from \<open>A\<close> to \<open>B\<close> of amount 10, and leave the
  pool empty; the next \<^verbatim>\<open>new_transaction\<close> returns the index of the last block plus 1.
\<close>

theorem transaction_flow:
  "\<exists>s0 s1 i1 s2 b s3.
     init E t0 = Inr s0
     \<and> new_transaction s0 A B 10 = (s1, Inr i1)
     \<and> new_block E s1 p None t1 = Inr (s2, b)
     \<and> transactions b = [\<lparr>sender = A, recipient = B, amount = 10\<rparr>]
     \<and> pending_transactions s2 = []
     \<and> last_block s2 = Inr b
     \<and> new_transaction s2 A' B' n = (s3, Inr (index b + 1))"
  by (simp add: init_def new_block_def new_transaction_def last_block_def Let_def)

section \<open>The hash of a block\<close>

lemma distinct_keys_sort_key:
  "distinct (map f (sort_key f xs)) = distinct (map f xs)"
  by (induction xs) (simp_all add: distinct_insort_key)

lemma sorted_keys_unique:
  assumes "distinct (map fst kvs)" and "distinct (map fst kws)"
    and "set (map fst kvs) = set (map fst kws)"
  shows "map fst (sort_key fst kvs) = map fst (sort_key fst kws)"
proof (rule sorted_distinct_set_unique)
  show "sorted (map fst (sort_key fst kvs))" "sorted (map fst (sort_key fst kws))"
    by (rule sorted_sort_key)+
  show "distinct (map fst (sort_key fst kvs))" "distinct (map fst (sort_key fst kws))"
    using assms(1,2) by (simp_all only: distinct_keys_sort_key)
  show "set (map fst (sort_key fst kvs)) = set (map fst (sort_key fst kws))"
    using assms(3) by simp
qed

lemma dumps_same_json: "same_json a b \<Longrightarrow> dumps R True a = dumps R True b"
proof (induction a b rule: same_json.induct)
  case (4 vs ws)
  from "4.prems" have "list_all2 same_json vs ws" by simp
  then have "map (dumps R True) vs = map (dumps R True) ws"
    using "4.IH" by (induction rule: list_all2_induct) auto
  then show ?case by simp
next
  case (5 kvs kws)
  let ?sx = "sort_key fst kvs" and ?sy = "sort_key fst kws"
  let ?F = "\<lambda>kv. json_str (fst kv) @ '': '' @ dumps R True (snd kv)"
  from "5.prems" have d: "distinct (map fst kvs)" "distinct (map fst kws)"
    and k: "set (map fst kvs) = set (map fst kws)"
    and v: "\<And>kv kw. kv \<in> set kvs \<Longrightarrow> kw \<in> set kws \<Longrightarrow> fst kv = fst kw
              \<Longrightarrow> same_json (snd kv) (snd kw)"
    by simp_all
  have keys: "map fst ?sx = map fst ?sy"
    using d k by (rule sorted_keys_unique)
  then have len: "length ?sx = length ?sy"
    by (rule map_eq_imp_length_eq)
  have "map ?F ?sx = map ?F ?sy"
  proof (rule nth_equalityI)
    show "length (map ?F ?sx) = length (map ?F ?sy)" using len by simp
  next
    fix i assume "i < length (map ?F ?sx)"
    then have i: "i < length ?sx" "i < length ?sy" using len by simp_all
    have mem: "?sx ! i \<in> set kvs" "?sy ! i \<in> set kws"
      using i nth_mem [of i ?sx] nth_mem [of i ?sy] by simp_all
    have fst_eq: "fst (?sx ! i) = fst (?sy ! i)"
      using keys i by (metis nth_map)
    have "same_json (snd (?sx ! i)) (snd (?sy ! i))"
      using mem fst_eq by (rule v)
    with "5.IH" [OF mem fst_eq] have "dumps R True (snd (?sx ! i)) = dumps R True (snd (?sy ! i))"
      by simp
    with fst_eq i show "map ?F ?sx ! i = map ?F ?sy ! i" by simp
  qed
  then show ?case by simp
qed simp_all

text \<open>
  C9. Two logically identical blocks, whose dicts hold the same keys with the same values
  in whatever order, have the same hash; the hash has the form the digest gives it.
\<close>

theorem hash_deterministic:
  assumes "same_json a b"
  shows "hash E a = hash E b
         \<and> ((\<forall>text. lowercase_hex (sha256_hexdigest E text))
              \<longrightarrow> lowercase_hex (hash E a) \<and> lowercase_hex (hash E b))"
  using dumps_same_json [OF assms, of "float_repr E"] by (simp add: hash_def)

theorem hash_deterministic_witness:
  "same_json (block_dict g1)
     (JDict [(''previous_hash'', JStr ''1badc0de''),
             (''transactions'',
                JList [JDict [(''amount'', JInt 1), (''sender'', JStr ''0''),
                              (''recipient'', JStr ''me'')]]),
             (''proof'', JInt 7), (''timestamp'', JFloat ''1.5''), (''index'', JInt 2)])
   \<and> hash demo_env (block_dict g1)
       = hash demo_env
           (JDict [(''previous_hash'', JStr ''1badc0de''),
             (''transactions'',
                JList [JDict [(''amount'', JInt 1), (''sender'', JStr ''0''),
                              (''recipient'', JStr ''me'')]]),
             (''proof'', JInt 7), (''timestamp'', JFloat ''1.5''), (''index'', JInt 2)])
   \<and> lowercase_hex (hash demo_env (block_dict g1))"
proof -
  let ?b = "JDict [(''previous_hash'', JStr ''1badc0de''),
             (''transactions'',
                JList [JDict [(''amount'', JInt 1), (''sender'', JStr ''0''),
                              (''recipient'', JStr ''me'')]]),
             (''proof'', JInt 7), (''timestamp'', JFloat ''1.5''), (''index'', JInt 2)]"
  have s: "same_json (block_dict g1) ?b"
    by code_simp
  have h: "\<forall>text. lowercase_hex (sha256_hexdigest demo_env text)"
    by (simp add: demo_env_def demo_digest_def lowercase_hex_def)
  from hash_deterministic [OF s, of demo_env] h s show ?thesis
    by blast
qed

section \<open>The proof-of-work predicate and the search\<close>

lemma take4_zeros: "(take 4 h = ''0000'') = (4 \<le> leading_zeros h)"
proof (cases h)
  case Nil then show ?thesis by (simp add: leading_zeros_def)
next
  case (Cons a h1)
  show ?thesis
  proof (cases h1)
    case Nil with Cons show ?thesis by (simp add: leading_zeros_def)
  next
    case (Cons b h2)
    note c2 = this
    show ?thesis
    proof (cases h2)
      case Nil with c2 \<open>h = a # h1\<close> show ?thesis by (simp add: leading_zeros_def)
    next
      case (Cons c h3)
      note c3 = this
      show ?thesis
      proof (cases h3)
        case Nil with c2 c3 \<open>h = a # h1\<close> show ?thesis by (simp add: leading_zeros_def)
      next
        case (Cons d h4)
        with c2 c3 \<open>h = a # h1\<close> show ?thesis by (simp add: leading_zeros_def)
      qed
    qed
  qed
qed

text \<open>
  C6. A block has a valid proof exactly when its hash begins with at least four zero
  characters; a hash that begins with five or more satisfies the predicate too.
\<close>

theorem valid_proof_leading_zeros:
  "(valid_proof E b \<longleftrightarrow> 4 \<le> leading_zeros (hash E (block_dict b)))
   \<and> (5 \<le> leading_zeros (hash E (block_dict b)) \<longrightarrow> valid_proof E b)"
  by (simp add: valid_proof_def take4_zeros)

theorem valid_proof_leading_zeros_witness:
  "5 \<le> leading_zeros (hash demo_env (block_dict g1)) \<and> valid_proof demo_env g1"
proof -
  have h: "5 \<le> leading_zeros (hash demo_env (block_dict g1))"
    by code_simp
  with valid_proof_leading_zeros [of demo_env g1] show ?thesis
    by blast
qed

lemma proof_of_work_steps_Suc_mono:
  "proof_nonce (proof_of_work_steps E k b) \<le> proof_nonce (proof_of_work_steps E (Suc k) b)"
proof (induction k arbitrary: b)
  case 0
  show ?case by simp
next
  case (Suc k)
  show ?case
  proof (cases "valid_proof E b")
    case True
    then show ?thesis by simp
  next
    case False
    then show ?thesis
      using Suc [of "b\<lparr>proof_nonce := proof_nonce b + 1\<rparr>"] by simp
  qed
qed

lemma proof_of_work_steps_mono:
  "j \<le> k \<Longrightarrow> proof_nonce (proof_of_work_steps E j b) \<le> proof_nonce (proof_of_work_steps E k b)"
  by (rule lift_Suc_mono_le [of "\<lambda>k. proof_nonce (proof_of_work_steps E k b)"])
     (simp_all only: proof_of_work_steps_Suc_mono)

lemma proof_of_work_steps_frame:
  "proof_of_work_steps E k b = b\<lparr>proof_nonce := proof_nonce (proof_of_work_steps E k b)\<rparr>"
proof (induction k arbitrary: b)
  case 0
  show ?case by simp
next
  case (Suc k)
  show ?case
  proof (cases "valid_proof E b")
    case True
    then show ?thesis by simp
  next
    case False
    have "proof_of_work_steps E k (b\<lparr>proof_nonce := proof_nonce b + 1\<rparr>)
            = b\<lparr>proof_nonce := proof_nonce b + 1,
                proof_nonce := proof_nonce (proof_of_work_steps E k (b\<lparr>proof_nonce := proof_nonce b + 1\<rparr>))\<rparr>"
      by (rule Suc)
    with False show ?thesis by simp
  qed
qed

lemma proof_of_work_steps_returns:
  "valid_proof E (proof_of_work_steps E n b)
   \<Longrightarrow> proof_of_work E b = Some (proof_of_work_steps E n b)"
proof (induction n arbitrary: b)
  case 0
  then show ?case by (subst proof_of_work.simps) simp
next
  case (Suc n)
  show ?case
  proof (cases "valid_proof E b")
    case True
    then show ?thesis by (subst proof_of_work.simps) simp
  next
    case False
    with Suc.prems have "valid_proof E (proof_of_work_steps E n (b\<lparr>proof_nonce := proof_nonce b + 1\<rparr>))"
      by simp
    then have "proof_of_work E (b\<lparr>proof_nonce := proof_nonce b + 1\<rparr>)
                 = Some (proof_of_work_steps E n (b\<lparr>proof_nonce := proof_nonce b + 1\<rparr>))"
      by (rule Suc.IH)
    with False show ?thesis by (subst proof_of_work.simps) simp
  qed
qed

lemma proof_of_work_steps_reaches:
  "valid_proof E (b\<lparr>proof_nonce := proof_nonce b + int n\<rparr>)
   \<Longrightarrow> valid_proof E (proof_of_work_steps E n b)"
proof (induction n arbitrary: b)
  case 0
  then show ?case by simp
next
  case (Suc n)
  show ?case
  proof (cases "valid_proof E b")
    case True
    then show ?thesis by simp
  next
    case False
    have "valid_proof E (proof_of_work_steps E n (b\<lparr>proof_nonce := proof_nonce b + 1\<rparr>))"
      using Suc.prems by (intro Suc.IH) (simp add: add.assoc)
    with False show ?thesis by simp
  qed
qed

text \<open>
  C7. When some proof value from the current one upwards makes the block valid,
  \<^verbatim>\<open>proof_of_work\<close> returns, the block it returns has a valid proof and differs from the
  given one in its proof only, and along the passes of the loop the proof never
  decreases.
\<close>

theorem proof_of_work_terminates:
  assumes "proof_nonce b \<le> p" and "valid_proof E (b\<lparr>proof_nonce := p\<rparr>)"
  shows "\<exists>n. proof_of_work E b = Some (proof_of_work_steps E n b)
            \<and> valid_proof E (proof_of_work_steps E n b)
            \<and> proof_of_work_steps E n b = b\<lparr>proof_nonce := proof_nonce (proof_of_work_steps E n b)\<rparr>
            \<and> (\<forall>j k. j \<le> k \<longrightarrow> proof_nonce (proof_of_work_steps E j b)
                                    \<le> proof_nonce (proof_of_work_steps E k b))"
proof -
  define n where "n = nat (p - proof_nonce b)"
  have "proof_nonce b + int n = p"
    using assms(1) by (simp add: n_def)
  with assms(2) have v: "valid_proof E (proof_of_work_steps E n b)"
    by (intro proof_of_work_steps_reaches) simp
  then have "proof_of_work E b = Some (proof_of_work_steps E n b)"
    by (rule proof_of_work_steps_returns)
  with v proof_of_work_steps_frame [of E n b] show ?thesis
    using proof_of_work_steps_mono [of _ _ E b] by blast
qed

theorem proof_of_work_terminates_witness:
  "proof_nonce (g2\<lparr>proof_nonce := 5\<rparr>) \<le> 7
   \<and> valid_proof demo_env (g2\<lparr>proof_nonce := 5, proof_nonce := 7\<rparr>)
   \<and> \<not> valid_proof demo_env (g2\<lparr>proof_nonce := 5\<rparr>)
   \<and> proof_of_work_steps demo_env 2 (g2\<lparr>proof_nonce := 5\<rparr>) = g2
   \<and> (\<exists>n. proof_of_work demo_env (g2\<lparr>proof_nonce := 5\<rparr>)
             = Some (proof_of_work_steps demo_env n (g2\<lparr>proof_nonce := 5\<rparr>))
          \<and> valid_proof demo_env (proof_of_work_steps demo_env n (g2\<lparr>proof_nonce := 5\<rparr>)))"
proof -
  have a: "proof_nonce (g2\<lparr>proof_nonce := 5\<rparr>) \<le> 7" by simp
  have b: "valid_proof demo_env (g2\<lparr>proof_nonce := 5, proof_nonce := 7\<rparr>)" by code_simp
  have c: "\<not> valid_proof demo_env (g2\<lparr>proof_nonce := 5\<rparr>)" by code_simp
  have d: "proof_of_work_steps demo_env 2 (g2\<lparr>proof_nonce := 5\<rparr>) = g2" by code_simp
  from proof_of_work_terminates [OF a b] a b c d show ?thesis by blast
qed

section \<open>The validator\<close>

lemma valid_chain_loop_iff:
  "1 \<le> i \<Longrightarrow> i \<le> length blocks \<Longrightarrow>
   valid_chain_loop E blocks (blocks ! (i - 1)) i
     = (\<forall>j. i \<le> j \<and> j < length blocks \<longrightarrow> \<not> block_fails E blocks j)"
proof (induction "length blocks - i" arbitrary: i)
  case 0
  then have "i = length blocks" by simp
  then show ?case by (auto simp: valid_chain_loop.simps)
next
  case (Suc n)
  then have lt: "i < length blocks" by simp
  show ?case
  proof (cases "block_fails E blocks i")
    case True
    then have "valid_chain_loop E blocks (blocks ! (i - 1)) i = False"
      using lt by (subst valid_chain_loop.simps) (auto simp: block_fails_def Let_def)
    moreover have "\<not> (\<forall>j. i \<le> j \<and> j < length blocks \<longrightarrow> \<not> block_fails E blocks j)"
      using True lt by blast
    ultimately show ?thesis by simp
  next
    case False
    then have "valid_chain_loop E blocks (blocks ! (i - 1)) i
                 = valid_chain_loop E blocks (blocks ! (Suc i - 1)) (Suc i)"
      using lt by (subst valid_chain_loop.simps) (auto simp: block_fails_def Let_def)
    also have "\<dots> = (\<forall>j. Suc i \<le> j \<and> j < length blocks \<longrightarrow> \<not> block_fails E blocks j)"
      using Suc.hyps(1) [of "Suc i"] Suc.hyps(2) lt by simp
    also have "\<dots> = (\<forall>j. i \<le> j \<and> j < length blocks \<longrightarrow> \<not> block_fails E blocks j)"
      using False by (metis Suc_leI le_neq_implies_less Suc_leD)
    finally show ?thesis .
  qed
qed

lemma valid_chain_result:
  "blocks \<noteq> [] \<Longrightarrow>
   valid_chain E blocks = Inr (\<not> (\<exists>i. 1 \<le> i \<and> i < length blocks \<and> block_fails E blocks i))"
  using valid_chain_loop_iff [of 1 blocks E]
  by (cases blocks) (auto simp: valid_chain_def)

lemma block_fails_prefix:
  "i < length blocks \<Longrightarrow> block_fails E (take (Suc i) blocks @ rest) i = block_fails E blocks i"
  by (auto simp: block_fails_def nth_append)

text \<open>
  C1. A chain is a non-empty sequence of blocks, and \<^verbatim>\<open>chain[0]\<close> is its first block. On
  every chain \<^verbatim>\<open>valid_chain\<close> returns false exactly when some block at a position
  \<open>i \<ge> 1\<close> has a \<open>previous_hash\<close> that differs from the hash of the block at \<open>i - 1\<close> or
  has an invalid proof, and true otherwise: the proof of the first block is never tested.
  The answer is false already on the blocks up to such a position, whatever comes after
  them.
\<close>

theorem valid_chain_trusts_first_block:
  assumes "blocks \<noteq> []"
  shows "valid_chain E blocks
           = Inr (\<not> (\<exists>i. 1 \<le> i \<and> i < length blocks \<and> block_fails E blocks i))
         \<and> (\<forall>i rest. 1 \<le> i \<and> i < length blocks \<and> block_fails E blocks i
               \<longrightarrow> valid_chain E (take (Suc i) blocks @ rest) = Inr False)"
proof (intro conjI allI impI)
  show "valid_chain E blocks
           = Inr (\<not> (\<exists>i. 1 \<le> i \<and> i < length blocks \<and> block_fails E blocks i))"
    using assms by (rule valid_chain_result)
next
  fix i rest
  assume a: "1 \<le> i \<and> i < length blocks \<and> block_fails E blocks i"
  let ?c = "take (Suc i) blocks @ rest"
  have ne: "?c \<noteq> []" using assms by (cases blocks) auto
  have "block_fails E ?c i" using a by (simp add: block_fails_prefix)
  moreover have "i < length ?c" using a by simp
  ultimately have "\<exists>j. 1 \<le> j \<and> j < length ?c \<and> block_fails E ?c j"
    using a by blast
  then show "valid_chain E ?c = Inr False"
    using valid_chain_result [OF ne, of E] by simp
qed

theorem valid_chain_trusts_first_block_witness:
  "[g0, g1, g2\<lparr>proof_nonce := 5\<rparr>, g2] \<noteq> []
   \<and> 1 \<le> (2::nat) \<and> 2 < length [g0, g1, g2\<lparr>proof_nonce := 5\<rparr>, g2]
   \<and> block_fails demo_env [g0, g1, g2\<lparr>proof_nonce := 5\<rparr>, g2] 2
   \<and> valid_chain demo_env [g0, g1, g2\<lparr>proof_nonce := 5\<rparr>, g2] = Inr False
   \<and> valid_chain demo_env [g0, g1, g2\<lparr>proof_nonce := 5\<rparr>, g0, g0] = Inr False
   \<and> \<not> valid_proof demo_env g0
   \<and> valid_chain demo_env [g0, g1, g2] = Inr True"
proof -
  have g: "\<not> valid_proof demo_env g0" "valid_chain demo_env [g0, g1, g2] = Inr True"
    by code_simp+
  let ?c = "[g0, g1, g2\<lparr>proof_nonce := 5\<rparr>, g2]"
  have ne: "?c \<noteq> []" by simp
  have f: "block_fails demo_env ?c 2" by code_simp
  have r: "valid_chain demo_env ?c
             = Inr (\<not> (\<exists>i. 1 \<le> i \<and> i < length ?c \<and> block_fails demo_env ?c i))"
    and p: "\<forall>i rest. 1 \<le> i \<and> i < length ?c \<and> block_fails demo_env ?c i
               \<longrightarrow> valid_chain demo_env (take (Suc i) ?c @ rest) = Inr False"
    using valid_chain_trusts_first_block [OF ne, of demo_env] by blast+
  have "\<exists>i. 1 \<le> i \<and> i < length ?c \<and> block_fails demo_env ?c i"
    using f by (intro exI [of _ 2]) simp
  with r have r': "valid_chain demo_env ?c = Inr False" by (simp only: not_True_eq_False)
  have "valid_chain demo_env (take (Suc 2) ?c @ [g0, g0]) = Inr False"
    using p f by (intro p [rule_format]) simp
  then have "valid_chain demo_env [g0, g1, g2\<lparr>proof_nonce := 5\<rparr>, g0, g0] = Inr False"
    by simp
  with ne f r' g show ?thesis by simp
qed

text \<open>
  C10, as amended. For every chain of exactly one block \<^verbatim>\<open>valid_chain\<close> returns true,
  whatever the block holds: the loop is not entered and no field of the block is read.
\<close>

theorem valid_chain_single_block: "valid_chain E [b] = Inr True"
  by (simp add: valid_chain_def valid_chain_loop.simps)

text \<open>
  The claim as stated also covers the empty chain, the one chain of length at most 1
  that has no block: there \<^verbatim>\<open>chain[0]\<close> raises \<^verbatim>\<open>IndexError\<close> and nothing is returned.
\<close>

theorem valid_chain_empty_counterexample:
  "length ([] :: string block list) \<le> 1 \<and> valid_chain demo_env [] = Inl IndexError"
  by (simp add: valid_chain_def)

section \<open>Consensus\<close>

lemma scan_Cons_cases:
  "scan E (node # rest) m nc =
     (case fetch E node of
        Inl e \<Rightarrow> Inl e
      | Inr r \<Rightarrow>
          if status_code r = 200 \<and> m < body_length r then
            (case valid_chain E (body_chain r) of
               Inl e \<Rightarrow> Inl e
             | Inr ok \<Rightarrow> if ok then scan E rest (body_length r) (Some (body_chain r))
                          else scan E rest m nc)
          else scan E rest m nc)"
  by (simp add: fetch_def split: sum.splits)

declare scan.simps(2) [simp del]

lemma scan_invariant:
  assumes "scan E ns m nc = Inr (m', nc')"
  shows "m \<le> m'
     \<and> (\<forall>node \<in> set ns. \<forall>r. fetch E node = Inr r \<and> status_code r = 200
            \<and> valid_chain E (body_chain r) = Inr True \<longrightarrow> body_length r \<le> m')
     \<and> ((m' = m \<and> nc' = nc)
        \<or> (m < m' \<and> (\<exists>node \<in> set ns. \<exists>r. fetch E node = Inr r \<and> status_code r = 200
                \<and> valid_chain E (body_chain r) = Inr True \<and> body_length r = m'
                \<and> nc' = Some (body_chain r))))"
  using assms
proof (induction ns arbitrary: m nc)
  case Nil
  then show ?case by simp
next
  case (Cons node rest)
  from Cons.prems obtain r where r: "fetch E node = Inr r"
    by (cases "fetch E node") (simp_all add: scan_Cons_cases)
  show ?case
  proof (cases "status_code r = 200 \<and> m < body_length r")
    case False
    with Cons.prems r have "scan E rest m nc = Inr (m', nc')"
      by (simp add: scan_Cons_cases)
    from Cons.IH [OF this] False r show ?thesis
      by auto
  next
    case True
    with Cons.prems r obtain ok where ok: "valid_chain E (body_chain r) = Inr ok"
      by (cases "valid_chain E (body_chain r)") (simp_all add: scan_Cons_cases)
    show ?thesis
    proof (cases ok)
      case False
      with Cons.prems r True ok have "scan E rest m nc = Inr (m', nc')"
        by (simp add: scan_Cons_cases)
      from Cons.IH [OF this] False r ok show ?thesis
        by auto
    next
      case ok_true: True
      with Cons.prems r True ok
      have "scan E rest (body_length r) (Some (body_chain r)) = Inr (m', nc')"
        by (simp add: scan_Cons_cases)
      from Cons.IH [OF this] have ih1: "body_length r \<le> m'"
        and ih2: "\<forall>node \<in> set rest. \<forall>r. fetch E node = Inr r \<and> status_code r = 200
            \<and> valid_chain E (body_chain r) = Inr True \<longrightarrow> body_length r \<le> m'"
        and ih3: "(m' = body_length r \<and> nc' = Some (body_chain r))
        \<or> (body_length r < m' \<and> (\<exists>node \<in> set rest. \<exists>r. fetch E node = Inr r \<and> status_code r = 200
                \<and> valid_chain E (body_chain r) = Inr True \<and> body_length r = m'
                \<and> nc' = Some (body_chain r)))"
        by blast+
      have a: "m \<le> m'" using True ih1 by simp
      have b: "\<forall>n \<in> set (node # rest). \<forall>r. fetch E n = Inr r \<and> status_code r = 200
            \<and> valid_chain E (body_chain r) = Inr True \<longrightarrow> body_length r \<le> m'"
        using ih1 ih2 r by auto
      have c: "m < m' \<and> (\<exists>n \<in> set (node # rest). \<exists>r. fetch E n = Inr r \<and> status_code r = 200
                \<and> valid_chain E (body_chain r) = Inr True \<and> body_length r = m'
                \<and> nc' = Some (body_chain r))"
        using ih3
      proof
        assume "m' = body_length r \<and> nc' = Some (body_chain r)"
        with True r ok ok_true show ?thesis by auto
      next
        assume "body_length r < m' \<and> (\<exists>node \<in> set rest. \<exists>r. fetch E node = Inr r \<and> status_code r = 200
                \<and> valid_chain E (body_chain r) = Inr True \<and> body_length r = m'
                \<and> nc' = Some (body_chain r))"
        with True show ?thesis by auto
      qed
      from a b c show ?thesis by blast
    qed
  qed
qed

lemma candidate_iff:
  "candidate E l node \<longleftrightarrow>
     (\<exists>r. fetch E node = Inr r \<and> status_code r = 200 \<and> l < body_length r
           \<and> valid_chain E (body_chain r) = Inr True)"
  by (simp add: candidate_def split: sum.splits)

lemma valid_chain_nonempty: "valid_chain E blocks = Inr ok \<Longrightarrow> blocks \<noteq> []"
  by (auto simp: valid_chain_def)

lemma resolve_conflict_returned:
  assumes "resolve_conflict E s = Inr (s', replaced)"
  shows "((\<exists>node \<in> set (set_iter E (nodes s)). candidate E (int (length (chain s))) node)
            \<longrightarrow> replaced
              \<and> (\<exists>node \<in> set (set_iter E (nodes s)). \<exists>r.
                    fetch E node = Inr r \<and> candidate E (int (length (chain s))) node
                    \<and> s' = s\<lparr>chain := body_chain r\<rparr>
                    \<and> pending_transactions s' = pending_transactions s
                    \<and> (\<forall>other \<in> set (set_iter E (nodes s)). \<forall>r'.
                          candidate E (int (length (chain s))) other \<and> fetch E other = Inr r'
                          \<longrightarrow> body_length r' \<le> body_length r)))
       \<and> (\<not> (\<exists>node \<in> set (set_iter E (nodes s)). candidate E (int (length (chain s))) node)
            \<longrightarrow> \<not> replaced \<and> s' = s)"
proof -
  let ?ns = "set_iter E (nodes s)" and ?l = "int (length (chain s))"
  from assms obtain m' nc' where sc: "scan E ?ns ?l None = Inr (m', nc')"
    by (auto simp: resolve_conflict_def split: sum.splits)
  from scan_invariant [OF sc]
  have le: "\<forall>node \<in> set ?ns. \<forall>r. fetch E node = Inr r \<and> status_code r = 200
            \<and> valid_chain E (body_chain r) = Inr True \<longrightarrow> body_length r \<le> m'"
    and alt: "(m' = ?l \<and> nc' = None)
        \<or> (?l < m' \<and> (\<exists>node \<in> set ?ns. \<exists>r. fetch E node = Inr r \<and> status_code r = 200
                \<and> valid_chain E (body_chain r) = Inr True \<and> body_length r = m'
                \<and> nc' = Some (body_chain r)))"
    by blast+
  show ?thesis
  proof (cases "\<exists>node \<in> set ?ns. candidate E ?l node")
    case True
    then obtain c rc where c: "c \<in> set ?ns" "fetch E c = Inr rc" "status_code rc = 200"
      "?l < body_length rc" "valid_chain E (body_chain rc) = Inr True"
      by (auto simp: candidate_iff)
    with le have "?l < m'" by force
    with alt obtain w rw where w: "w \<in> set ?ns" "fetch E w = Inr rw" "status_code rw = 200"
      "valid_chain E (body_chain rw) = Inr True" "body_length rw = m'" "nc' = Some (body_chain rw)"
      by auto
    have ne: "body_chain rw \<noteq> []" using w(4) by (rule valid_chain_nonempty)
    from assms sc w(6) ne have res: "replaced" "s' = s\<lparr>chain := body_chain rw\<rparr>"
      by (auto simp: resolve_conflict_def)
    have cw: "candidate E ?l w"
      using w \<open>?l < m'\<close> by (auto simp: candidate_iff)
    have mx: "\<forall>other \<in> set ?ns. \<forall>r'. candidate E ?l other \<and> fetch E other = Inr r'
                 \<longrightarrow> body_length r' \<le> body_length rw"
      using le w(5) by (auto simp: candidate_iff)
    from res w(1,2) cw mx True show ?thesis
      by auto
  next
    case False
    have "nc' = None"
      using alt
    proof
      assume "m' = ?l \<and> nc' = None" then show ?thesis by simp
    next
      assume "?l < m' \<and> (\<exists>node \<in> set ?ns. \<exists>r. fetch E node = Inr r \<and> status_code r = 200
                \<and> valid_chain E (body_chain r) = Inr True \<and> body_length r = m'
                \<and> nc' = Some (body_chain r))"
      then have "\<exists>node \<in> set ?ns. candidate E ?l node"
        by (auto simp: candidate_iff)
      with False show ?thesis by simp
    qed
    with assms sc have "\<not> replaced" "s' = s"
      by (auto simp: resolve_conflict_def)
    with False show ?thesis by simp
  qed
qed

lemma scan_returns:
  assumes "\<forall>node \<in> set ns. \<exists>r. fetch E node = Inr r
              \<and> (status_code r = 200 \<and> l < body_length r \<longrightarrow> body_chain r \<noteq> [])"
    and "l \<le> m"
  shows "\<exists>m' nc'. scan E ns m nc = Inr (m', nc')"
  using assms
proof (induction ns arbitrary: m nc)
  case Nil
  show ?case by simp
next
  case (Cons node rest)
  from Cons.prems(1) obtain r where r: "fetch E node = Inr r"
    and ne: "status_code r = 200 \<and> l < body_length r \<longrightarrow> body_chain r \<noteq> []"
    by auto
  have rest: "\<And>m nc. l \<le> m \<Longrightarrow> \<exists>m' nc'. scan E rest m nc = Inr (m', nc')"
    using Cons.IH Cons.prems(1) by simp
  show ?case
  proof (cases "status_code r = 200 \<and> m < body_length r")
    case False
    with r have "scan E (node # rest) m nc = scan E rest m nc"
      by (auto simp: scan_Cons_cases)
    with rest [OF Cons.prems(2), of nc] show ?thesis
      by simp
  next
    case True
    with ne Cons.prems(2) have "body_chain r \<noteq> []" by simp
    then obtain ok where ok: "valid_chain E (body_chain r) = Inr ok"
      by (simp add: valid_chain_def)
    have "l \<le> body_length r" using True Cons.prems(2) by simp
    from rest [OF this, of "Some (body_chain r)"] rest [OF Cons.prems(2), of nc] r True ok
    show ?thesis
      by (cases ok) (simp_all add: scan_Cons_cases)
  qed
qed

text \<open>
  C2, as amended. Take a run of \<^verbatim>\<open>resolve_conflict\<close> in which no exception ends the scan:
  the fetch of every scanned peer returns a response, and no answer with status 200 and
  a reported length above the local one carries an empty chain. Such a run returns. When
  some scanned peer is a candidate against the length of the local chain, the result is
  true, the local chain is now the chain of a candidate whose reported length no other
  candidate exceeds, and the pool of pending transactions, like everything but the
  chain, is as before; when no scanned peer is a candidate, the result is false and the
  state is as before.
\<close>

theorem resolve_conflict_replaces:
  assumes "\<forall>node \<in> set (set_iter E (nodes s)). \<exists>r. fetch E node = Inr r
              \<and> (status_code r = 200 \<and> int (length (chain s)) < body_length r
                    \<longrightarrow> body_chain r \<noteq> [])"
  shows "\<exists>s' replaced. resolve_conflict E s = Inr (s', replaced)
     \<and> ((\<exists>node \<in> set (set_iter E (nodes s)). candidate E (int (length (chain s))) node)
            \<longrightarrow> replaced
              \<and> (\<exists>node \<in> set (set_iter E (nodes s)). \<exists>r.
                    fetch E node = Inr r \<and> candidate E (int (length (chain s))) node
                    \<and> s' = s\<lparr>chain := body_chain r\<rparr>
                    \<and> pending_transactions s' = pending_transactions s
                    \<and> (\<forall>other \<in> set (set_iter E (nodes s)). \<forall>r'.
                          candidate E (int (length (chain s))) other \<and> fetch E other = Inr r'
                          \<longrightarrow> body_length r' \<le> body_length r)))
     \<and> (\<not> (\<exists>node \<in> set (set_iter E (nodes s)). candidate E (int (length (chain s))) node)
            \<longrightarrow> \<not> replaced \<and> s' = s)"
proof -
  from scan_returns [OF assms, of "int (length (chain s))" None]
  obtain m' nc' where "scan E (set_iter E (nodes s)) (int (length (chain s))) None = Inr (m', nc')"
    by auto
  then have "\<exists>s' replaced. resolve_conflict E s = Inr (s', replaced)"
    by (auto simp: resolve_conflict_def split: option.splits)
  then obtain s' replaced where "resolve_conflict E s = Inr (s', replaced)"
    by blast
  with resolve_conflict_returned [OF this] show ?thesis
    by blast
qed

theorem resolve_conflict_replaces_witness:
  "resolve_conflict demo_env (demo_ledger {''busy'', ''peer1'', ''peer2''})
     = Inr ((demo_ledger {''busy'', ''peer1'', ''peer2''})\<lparr>chain := [g0, g1, g2]\<rparr>, True)
   \<and> candidate demo_env 1 ''peer2''
   \<and> (\<exists>node \<in> set (set_iter demo_env (nodes (demo_ledger {''busy'', ''peer1'', ''peer2''}))).
        \<exists>r. fetch demo_env node = Inr r
           \<and> (demo_ledger {''busy'', ''peer1'', ''peer2''})\<lparr>chain := [g0, g1, g2]\<rparr>
               = (demo_ledger {''busy'', ''peer1'', ''peer2''})\<lparr>chain := body_chain r\<rparr>)"
proof -
  let ?s = "demo_ledger {''busy'', ''peer1'', ''peer2''}"
  have it: "set_iter demo_env (nodes ?s) = [''busy'', ''peer1'', ''peer2'']"
    by (simp add: demo_env_def demo_ledger_def)
  have f: "fetch demo_env ''busy'' = Inr \<lparr>status_code = 503, body_length = 0, body_chain = []\<rparr>"
    "fetch demo_env ''peer1'' = Inr \<lparr>status_code = 200, body_length = 1, body_chain = [g0]\<rparr>"
    "fetch demo_env ''peer2''
       = Inr \<lparr>status_code = 200, body_length = 3, body_chain = [g0, g1, g2]\<rparr>"
    by (simp_all add: fetch_def demo_env_def demo_get_def)
  have h: "\<forall>node \<in> set (set_iter demo_env (nodes ?s)). \<exists>r. fetch demo_env node = Inr r
              \<and> (status_code r = 200 \<and> int (length (chain ?s)) < body_length r
                    \<longrightarrow> body_chain r \<noteq> [])"
    by (simp add: it f)
  have c: "candidate demo_env 1 ''peer2''"
    by code_simp
  have run: "resolve_conflict demo_env ?s = Inr (?s\<lparr>chain := [g0, g1, g2]\<rparr>, True)"
    by code_simp
  have ex: "\<exists>node \<in> set (set_iter demo_env (nodes ?s)).
              candidate demo_env (int (length (chain ?s))) node"
    using c by (simp add: it) (simp add: demo_ledger_def)
  from resolve_conflict_replaces [OF h] ex run c show ?thesis
    by auto
qed

text \<open>
  The claim as stated covers every run in which some scanned peer is a candidate. Here
  \<open>''peer2''\<close> is scanned first and is a candidate; the fetch of \<open>''down''\<close>, scanned after
  it, raises, and the run ends with the exception: the local chain is not replaced and
  nothing is returned.
\<close>

theorem resolve_conflict_replaces_counterexample:
  "set_iter demo_env_late (nodes (demo_ledger {''down'', ''peer2''})) = [''peer2'', ''down'']
   \<and> int (length (chain (demo_ledger {''down'', ''peer2''}))) = 1
   \<and> candidate demo_env_late 1 ''peer2''
   \<and> fetch demo_env_late ''down'' = Inl RequestException
   \<and> resolve_conflict demo_env_late (demo_ledger {''down'', ''peer2''}) = Inl RequestException"
proof -
  have "set_iter demo_env_late (nodes (demo_ledger {''down'', ''peer2''})) = [''peer2'', ''down'']"
    by (simp add: demo_env_late_def demo_ledger_def)
  moreover have "int (length (chain (demo_ledger {''down'', ''peer2''}))) = 1"
    by (simp add: demo_ledger_def)
  moreover have "candidate demo_env_late 1 ''peer2''"
    by code_simp
  moreover have "fetch demo_env_late ''down'' = Inl RequestException"
    by (simp add: fetch_def demo_env_late_def demo_env_def demo_get_def)
  moreover have "resolve_conflict demo_env_late (demo_ledger {''down'', ''peer2''})
                   = Inl RequestException"
    by code_simp
  ultimately show ?thesis by simp
qed





lemma scan_skips:
  "scan E (filter (\<lambda>n. \<not> non_success E n) ns) m nc = scan E ns m nc"
proof (induction ns arbitrary: m nc)
  case Nil
  show ?case by simp
next
  case (Cons node rest)
  show ?case
  proof (cases "non_success E node")
    case True
    then obtain r where "fetch E node = Inr r" "status_code r \<noteq> 200"
      by (auto simp: non_success_def split: sum.splits)
    with True Cons show ?thesis
      by (simp add: scan_Cons_cases)
  next
    case False
    with Cons show ?thesis
      by (simp add: scan_Cons_cases split: sum.splits)
  qed
qed

lemma scan_raises:
  "node \<in> set ns \<Longrightarrow> fetch E node = Inl e \<Longrightarrow> \<exists>e'. scan E ns m nc = Inl e'"
proof (induction ns arbitrary: m nc)
  case Nil
  then show ?case by simp
next
  case (Cons n rest)
  show ?case
  proof (cases "fetch E n")
    case (Inl e0)
    then show ?thesis by (simp add: scan_Cons_cases)
  next
    case (Inr r)
    with Cons.prems have "node \<in> set rest" by auto
    then have "\<And>m nc. \<exists>e'. scan E rest m nc = Inl e'"
      using Cons.IH Cons.prems(2) by blast
    with Inr show ?thesis
      by (auto simp: scan_Cons_cases split: sum.splits)
  qed
qed

lemma hash_set_iter: "hash (E\<lparr>set_iter := f\<rparr>) j = hash E j"
  by (simp add: hash_def)

lemma valid_proof_set_iter: "valid_proof (E\<lparr>set_iter := f\<rparr>) b = valid_proof E b"
  by (simp add: valid_proof_def hash_set_iter)

lemma valid_chain_loop_set_iter:
  "valid_chain_loop (E\<lparr>set_iter := f\<rparr>) blocks prev i = valid_chain_loop E blocks prev i"
proof (induction "length blocks - i" arbitrary: i prev)
  case 0
  then show ?case by (simp add: valid_chain_loop.simps)
next
  case (Suc n)
  then have "valid_chain_loop (E\<lparr>set_iter := f\<rparr>) blocks (blocks ! i) (Suc i)
               = valid_chain_loop E blocks (blocks ! i) (Suc i)"
    by simp
  then show ?case
    by (subst (1 2) valid_chain_loop.simps) (simp add: hash_set_iter valid_proof_set_iter Let_def)
qed

lemma valid_chain_set_iter: "valid_chain (E\<lparr>set_iter := f\<rparr>) blocks = valid_chain E blocks"
  by (simp add: valid_chain_def valid_chain_loop_set_iter)

lemma scan_set_iter: "scan (E\<lparr>set_iter := f\<rparr>) ns m nc = scan E ns m nc"
  by (induction ns arbitrary: m nc)
     (simp_all add: scan_Cons_cases fetch_def valid_chain_set_iter split: sum.splits)

lemma resolve_conflict_skips:
  "resolve_conflict (E\<lparr>set_iter := \<lambda>N. filter (\<lambda>n. \<not> non_success E n) (set_iter E N)\<rparr>) s
     = resolve_conflict E s"
  by (simp add: resolve_conflict_def scan_set_iter scan_skips)

text \<open>
  C4, as amended. A peer that answers with a status other than 200 is skipped: the run
  goes as if the iteration over the peers had left that peer out. A fetch that raises is
  not caught: when the fetch of a scanned peer raises, \<^verbatim>\<open>resolve_conflict\<close> ends with an
  exception and returns nothing.
\<close>

theorem resolve_conflict_peer_failures:
  "resolve_conflict
       (E\<lparr>set_iter := \<lambda>N. filter (\<lambda>n. \<not> non_success E n) (set_iter E N)\<rparr>) s
     = resolve_conflict E s
   \<and> (node \<in> set (set_iter E (nodes s)) \<and> fetch E node = Inl e
        \<longrightarrow> (\<exists>e'. resolve_conflict E s = Inl e'))"
proof (intro conjI impI)
  show "resolve_conflict
            (E\<lparr>set_iter := \<lambda>N. filter (\<lambda>n. \<not> non_success E n) (set_iter E N)\<rparr>) s
          = resolve_conflict E s"
    by (rule resolve_conflict_skips)
next
  assume "node \<in> set (set_iter E (nodes s)) \<and> fetch E node = Inl e"
  then obtain e' where "scan E (set_iter E (nodes s)) (int (length (chain s))) None = Inl e'"
    using scan_raises [of node "set_iter E (nodes s)" E e] by blast
  then show "\<exists>e'. resolve_conflict E s = Inl e'"
    by (simp add: resolve_conflict_def)
qed

theorem resolve_conflict_peer_failures_witness:
  "non_success demo_env ''busy''
   \<and> set_iter demo_env (nodes (demo_ledger {''busy'', ''peer2''})) = [''busy'', ''peer2'']
   \<and> resolve_conflict
         (demo_env\<lparr>set_iter :=
            \<lambda>N. filter (\<lambda>n. \<not> non_success demo_env n) (set_iter demo_env N)\<rparr>)
         (demo_ledger {''busy'', ''peer2''})
       = Inr ((demo_ledger {''busy'', ''peer2''})\<lparr>chain := [g0, g1, g2]\<rparr>, True)
   \<and> ''down'' \<in> set (set_iter demo_env (nodes (demo_ledger {''down'', ''peer2''})))
   \<and> fetch demo_env ''down'' = Inl RequestException
   \<and> (\<exists>e'. resolve_conflict demo_env (demo_ledger {''down'', ''peer2''}) = Inl e')"
proof -
  have n: "non_success demo_env ''busy''"
    by (simp add: non_success_def fetch_def demo_env_def demo_get_def)
  have i: "set_iter demo_env (nodes (demo_ledger {''busy'', ''peer2''})) = [''busy'', ''peer2'']"
    by (simp add: demo_env_def demo_ledger_def)
  have r: "resolve_conflict demo_env (demo_ledger {''busy'', ''peer2''})
             = Inr ((demo_ledger {''busy'', ''peer2''})\<lparr>chain := [g0, g1, g2]\<rparr>, True)"
    by code_simp
  have m: "''down'' \<in> set (set_iter demo_env (nodes (demo_ledger {''down'', ''peer2''})))"
    by (simp add: demo_env_def demo_ledger_def)
  have f: "fetch demo_env ''down'' = Inl RequestException"
    by (simp add: fetch_def demo_env_def demo_get_def)
  have "\<exists>e'. resolve_conflict demo_env (demo_ledger {''down'', ''peer2''}) = Inl e'"
    using resolve_conflict_peer_failures
            [of demo_env "demo_ledger {''down'', ''peer2''}" "''down''" RequestException] m f
    by blast
  moreover have "resolve_conflict
         (demo_env\<lparr>set_iter :=
            \<lambda>N. filter (\<lambda>n. \<not> non_success demo_env n) (set_iter demo_env N)\<rparr>)
         (demo_ledger {''busy'', ''peer2''})
       = Inr ((demo_ledger {''busy'', ''peer2''})\<lparr>chain := [g0, g1, g2]\<rparr>, True)"
    using resolve_conflict_peer_failures [of demo_env "demo_ledger {''busy'', ''peer2''}"] r
    by simp
  ultimately show ?thesis using n i m f by blast
qed

text \<open>
  The claim as stated has the failed fetch skipped as well. Here the peer \<open>''down''\<close> is
  scanned first and its fetch raises; the scan of the remaining peer alone would have
  found a longer valid chain, yet the run ends with the exception.
\<close>

theorem resolve_conflict_fetch_failure_counterexample:
  "set_iter demo_env (nodes (demo_ledger {''down'', ''peer2''})) = [''down'', ''peer2'']
   \<and> fetch demo_env ''down'' = Inl RequestException
   \<and> scan demo_env [''peer2''] 1 None = Inr (3, Some [g0, g1, g2])
   \<and> resolve_conflict demo_env (demo_ledger {''down'', ''peer2''}) = Inl RequestException"
proof -
  have "set_iter demo_env (nodes (demo_ledger {''down'', ''peer2''})) = [''down'', ''peer2'']"
    by (simp add: demo_env_def demo_ledger_def)
  moreover have "fetch demo_env ''down'' = Inl RequestException"
    by (simp add: fetch_def demo_env_def demo_get_def)
  moreover have "scan demo_env [''peer2''] 1 None = Inr (3, Some [g0, g1, g2])"
    by code_simp
  moreover have "resolve_conflict demo_env (demo_ledger {''down'', ''peer2''}) = Inl RequestException"
    by code_simp
  ultimately show ?thesis by simp
qed

end
